theory Spec2Isabelle
  imports Main "HOL-Library.Multiset" "HOL-Library.Char_ord" "HOL-Library.List_Lexorder"
    "HOL-Library.Product_Lexorder"
begin

section \<open>The tables of the product variant tree\<close>

text \<open>
  The schema (the \<open>CREATE TABLE\<close> statements and triggers shipped in
  \<^verbatim>\<open>database/create_users_table.sql\<close>) keeps the variant tree in table \<open>nodes\<close> and the
  pre-computed transitive closure in table \<open>node_paths\<close>; the queries are those of
  \<^verbatim>\<open>database/queries.sql\<close>. A table is the list of its rows in scan order (rowid order for
  \<open>nodes\<close>). SQL \<open>INTEGER\<close> is \<open>int\<close>, \<open>TEXT\<close> is \<open>string\<close> (bytes, compared bytewise as
  the default collation does), and a nullable column is an \<open>option\<close> with \<open>None\<close> for NULL.
  Every query is a function of the tables it reads and of its parameters.
\<close>

record node =
  node_id :: int
  parent_id :: "int option"
  level :: int
  code :: "string option"
  name :: string
  label :: string
  label_en :: "string option"
  position :: int
  pattern :: "int option"
  full_typecode :: "string option"
  is_intermediate_code :: bool
  group_name :: "string option"
  pictures :: string
  links :: string

record node_path =
  ancestor_id :: int
  descendant_id :: int
  depth :: int

subsection \<open>SQL building blocks\<close>

text \<open>A comparison with NULL is never true, so \<open>a = b\<close> in a WHERE or ON clause holds only for
  two present, equal values.\<close>

definition sql_eq :: "'a option \<Rightarrow> 'a option \<Rightarrow> bool" where
  "sql_eq a b = (case a of None \<Rightarrow> False | Some x \<Rightarrow> (case b of None \<Rightarrow> False | Some y \<Rightarrow> x = y))"

text \<open>\<open>LIMIT 1\<close>: the first row of the scan, or no row. Used as a scalar subquery, no row is NULL.
  SQL leaves open which of several rows \<open>LIMIT 1\<close> keeps; the model keeps the first in scan
  order, and \<open>ORDER BY\<close> is a stable sort of the scan.\<close>

definition limit1 :: "'a list \<Rightarrow> 'a option" where
  "limit1 rows = (case rows of [] \<Rightarrow> None | r # _ \<Rightarrow> Some r)"

text \<open>\<open>x IS NOT NULL\<close> as a generator: the value when present, no row otherwise.\<close>

definition not_null :: "'a option \<Rightarrow> 'a list" where
  "not_null v = (case v of None \<Rightarrow> [] | Some x \<Rightarrow> [x])"

text \<open>\<open>LEFT JOIN t ON cond\<close>: every matching row of \<open>t\<close>, or one all-NULL row when none matches.\<close>

definition left_join :: "'b list \<Rightarrow> ('b \<Rightarrow> bool) \<Rightarrow> 'b option list" where
  "left_join rows on = (case filter on rows of [] \<Rightarrow> [None] | m # ms \<Rightarrow> map Some (m # ms))"

text \<open>\<open>MAX(col)\<close> over the selected rows; NULL over no row.\<close>

fun sql_max :: "int list \<Rightarrow> int option" where
  "sql_max [] = None"
| "sql_max (x # xs) = Some (fold max xs x)"

text \<open>The closure index lookup: is there a row (ancestor, descendant) in \<open>node_paths\<close>?\<close>

definition is_reachable :: "node_path list \<Rightarrow> int \<Rightarrow> int \<Rightarrow> bool" where
  "is_reachable paths a d = list_ex (\<lambda>np. ancestor_id np = a \<and> descendant_id np = d) paths"

section \<open>Query 2: children of a node\<close>

text \<open>\<^verbatim>\<open>queries.sql\<close>, lines 60 to 72: the rows whose \<open>parent_id\<close> is the id that the scalar
  subquery finds for the parent code, pattern containers (no code) left out.\<close>

record child_row =
  ch_code :: string
  ch_label :: string
  ch_name :: string
  ch_position :: int
  ch_full_typecode :: "string option"
  ch_is_intermediate_code :: bool

definition child_of_node :: "node \<Rightarrow> string \<Rightarrow> child_row" where
  "child_of_node n c = \<lparr>ch_code = c, ch_label = label n, ch_name = name n,
     ch_position = position n, ch_full_typecode = full_typecode n,
     ch_is_intermediate_code = is_intermediate_code n\<rparr>"

definition get_children_of_node :: "node list \<Rightarrow> string \<Rightarrow> child_row list" where
  "get_children_of_node nodes parent_code =
     (let parent = limit1 [node_id p. p \<leftarrow> nodes, code p = Some parent_code]
      in sort_key (\<lambda>r. (ch_position r, ch_code r))
           [child_of_node n c. n \<leftarrow> nodes, sql_eq (parent_id n) parent, c \<leftarrow> not_null (code n)])"

section \<open>Query 5: find node by code\<close>

text \<open>\<^verbatim>\<open>queries.sql\<close>, lines 336 to 347: \<open>nodes n LEFT JOIN nodes p ON n.parent_id = p.id\<close>,
  restricted to the search code and ordered by level and id.\<close>

record found_row =
  fr_id :: int
  fr_code :: string
  fr_label :: string
  fr_level :: int
  fr_full_typecode :: "string option"
  fr_parent_code :: "string option"
  fr_parent_label :: "string option"

definition found_of_node :: "node \<Rightarrow> node option \<Rightarrow> string \<Rightarrow> found_row" where
  "found_of_node n p c = \<lparr>fr_id = node_id n, fr_code = c, fr_label = label n,
     fr_level = level n, fr_full_typecode = full_typecode n,
     fr_parent_code = (case p of None \<Rightarrow> None | Some q \<Rightarrow> code q),
     fr_parent_label = map_option label p\<rparr>"

definition find_node_by_code :: "node list \<Rightarrow> string \<Rightarrow> found_row list" where
  "find_node_by_code nodes search_code =
     sort_key (\<lambda>r. (fr_level r, fr_id r))
       [found_of_node n p search_code.
          n \<leftarrow> nodes,
          p \<leftarrow> left_join nodes (\<lambda>p. sql_eq (parent_id n) (Some (node_id p))),
          code n = Some search_code]"

section \<open>Query 4: available options for a level\<close>

text \<open>\<^verbatim>\<open>queries.sql\<close>, lines 174 to 276 (approach A, one CTE per definition below) and lines
  304 to 314 (the version for no previous selections).\<close>

record candidate =
  cand_id :: int
  cand_code :: string
  cand_label :: string
  cand_position :: int
  cand_group_name :: "string option"
  cand_level :: int

record option_row =
  opt_code :: string
  opt_label :: string
  opt_position :: int
  opt_group_name :: "string option"
  opt_level :: int
  is_compatible :: bool

definition candidate_of_node :: "node \<Rightarrow> string \<Rightarrow> candidate" where
  "candidate_of_node n c = \<lparr>cand_id = node_id n, cand_code = c, cand_label = label n,
     cand_position = position n, cand_group_name = group_name n, cand_level = level n\<rparr>"

definition option_of_candidate :: "candidate \<Rightarrow> bool \<Rightarrow> option_row" where
  "option_of_candidate c flag = \<lparr>opt_code = cand_code c, opt_label = cand_label c,
     opt_position = cand_position c, opt_group_name = cand_group_name c,
     opt_level = cand_level c, is_compatible = flag\<rparr>"

text \<open>The selections arrive as (code, level) pairs, one \<open>UNION ALL\<close> branch each.\<close>

type_synonym current_selection = "string \<times> int"

text \<open>CTE \<open>candidates\<close>: the nodes of the target level that carry a code.\<close>

definition candidates :: "node list \<Rightarrow> int \<Rightarrow> candidate list" where
  "candidates nodes target_level =
     [candidate_of_node n c. n \<leftarrow> nodes, level n = target_level, c \<leftarrow> not_null (code n)]"

text \<open>CTE \<open>selection_ids\<close>: (id, level) of every node matching a selection in code and level.\<close>

definition selection_ids :: "node list \<Rightarrow> current_selection list \<Rightarrow> (int \<times> int) list" where
  "selection_ids nodes current_selections =
     [(node_id n, snd cs). cs \<leftarrow> current_selections, n \<leftarrow> nodes,
        code n = Some (fst cs) \<and> level n = snd cs]"

text \<open>CTE \<open>last_selection\<close>: \<open>ORDER BY level DESC LIMIT 1\<close>, at most one row.\<close>

definition last_selection :: "(int \<times> int) list \<Rightarrow> (int \<times> int) list" where
  "last_selection sel = take 1 (sort_key (\<lambda>s. - snd s) sel)"

text \<open>CTE \<open>forward_compatible\<close>: the candidates below the last selection in \<open>node_paths\<close>.\<close>

definition forward_compatible ::
  "node_path list \<Rightarrow> (int \<times> int) list \<Rightarrow> candidate list \<Rightarrow> int list" where
  "forward_compatible paths ls cands =
     remdups [descendant_id np. np \<leftarrow> paths, l \<leftarrow> ls, ancestor_id np = fst l,
                c \<leftarrow> cands, descendant_id np = cand_id c]"

text \<open>CTE \<open>backward_compatible\<close>: the candidates for which no selection of a level below the
  target lacks a \<open>node_paths\<close> row with the candidate as ancestor.\<close>

definition backward_compatible ::
  "node_path list \<Rightarrow> (int \<times> int) list \<Rightarrow> candidate list \<Rightarrow> int \<Rightarrow> int list" where
  "backward_compatible paths sel cands target_level =
     [cand_id c. c \<leftarrow> cands,
        \<not> list_ex (\<lambda>si. snd si < target_level \<and>
             \<not> list_ex (\<lambda>np. ancestor_id np = cand_id c \<and> descendant_id np = fst si) paths) sel]"

definition get_available_options ::
  "node list \<Rightarrow> node_path list \<Rightarrow> int \<Rightarrow> current_selection list \<Rightarrow> option_row list" where
  "get_available_options nodes paths target_level current_selections =
     (let cands = candidates nodes target_level;
          sel = selection_ids nodes current_selections;
          fwd = forward_compatible paths (last_selection sel) cands;
          bwd = backward_compatible paths sel cands target_level
      in sort_key (\<lambda>r. (opt_position r, opt_code r))
           [option_of_candidate c (fc \<noteq> None \<and> bc \<noteq> None).
              c \<leftarrow> cands,
              fc \<leftarrow> left_join fwd (\<lambda>i. cand_id c = i),
              bc \<leftarrow> left_join bwd (\<lambda>i. cand_id c = i)])"

text \<open>The simplified version for no previous selections: every node of the level is compatible.\<close>

definition options_no_previous_selections :: "node list \<Rightarrow> int \<Rightarrow> option_row list" where
  "options_no_previous_selections nodes target_level =
     sort_key (\<lambda>r. (opt_position r, opt_code r))
       [option_of_candidate (candidate_of_node n c) True.
          n \<leftarrow> nodes, level n = target_level, c \<leftarrow> not_null (code n)]"

section \<open>Query 3: maximum depth from a node\<close>

text \<open>
  \<^verbatim>\<open>queries.sql\<close>, lines 95 to 123. Option A is a recursive CTE. Its rows are computed
  working table by working table: the base rows first, then the rows joined to the previous
  working table, until a working table is empty (an engine that joins the rows one at a time
  from a queue produces the same rows). On a cyclic \<open>parent_id\<close> chain this never ends, so
  the model counts the working tables with fuel and returns \<open>None\<close> when the fuel runs out
  before an empty table.
\<close>

definition depth_calc_step :: "node list \<Rightarrow> (int \<times> int) list \<Rightarrow> (int \<times> int) list" where
  "depth_calc_step nodes rows =
     [(node_id n, snd d + 1). n \<leftarrow> nodes, d \<leftarrow> rows, parent_id n = Some (fst d)]"

fun depth_calc :: "nat \<Rightarrow> node list \<Rightarrow> (int \<times> int) list \<Rightarrow> (int \<times> int) list option" where
  "depth_calc fuel nodes [] = Some []"
| "depth_calc 0 nodes (r # rs) = None"
| "depth_calc (Suc fuel) nodes (r # rs) =
     map_option (\<lambda>later. (r # rs) @ later)
       (depth_calc fuel nodes (depth_calc_step nodes (r # rs)))"

definition max_depth_from_node_cte :: "nat \<Rightarrow> node list \<Rightarrow> string \<Rightarrow> int option option" where
  "max_depth_from_node_cte fuel nodes start_code =
     map_option (\<lambda>rows. sql_max (map snd rows))
       (depth_calc fuel nodes [(node_id n, 0). n \<leftarrow> nodes, code n = Some start_code])"

text \<open>Option B reads the closure table below the one node that \<open>LIMIT 1\<close> picks for the code.\<close>

definition max_depth_from_node_closure ::
  "node list \<Rightarrow> node_path list \<Rightarrow> string \<Rightarrow> int option" where
  "max_depth_from_node_closure nodes paths start_code =
     (let start = limit1 [node_id n. n \<leftarrow> nodes, code n = Some start_code]
      in sql_max [depth np. np \<leftarrow> paths, sql_eq (Some (ancestor_id np)) start])"

section \<open>Parent walks and closure completeness\<close>

text \<open>\<open>nth_parent nodes k i\<close> walks \<open>k\<close> \<open>parent_id\<close> pointers up from the node with id \<open>i\<close>;
  \<open>None\<close> when the node or one of the parents on the way does not exist.\<close>

fun nth_parent :: "node list \<Rightarrow> nat \<Rightarrow> int \<Rightarrow> int option" where
  "nth_parent nodes 0 i = (if i \<in> set (map node_id nodes) then Some i else None)"
| "nth_parent nodes (Suc k) i =
     (case find (\<lambda>n. node_id n = i) nodes of
        None \<Rightarrow> None
      | Some n \<Rightarrow> (case parent_id n of None \<Rightarrow> None | Some p \<Rightarrow> nth_parent nodes k p))"

text \<open>
  The closure table is complete for the tree when its rows are exactly the parent walks:
  every row (a, d, k) says that a is the k-th parent of d, and every parent walk of at most
  as many steps as the table has rows is a row. (A longer walk cannot exist then: its
  prefixes would be more rows for one descendant than the table holds.)
\<close>

definition closure_complete :: "node list \<Rightarrow> node_path list \<Rightarrow> bool" where
  "closure_complete nodes paths \<longleftrightarrow>
     list_all (\<lambda>np. 0 \<le> depth np \<and>
        nth_parent nodes (nat (depth np)) (descendant_id np) = Some (ancestor_id np)) paths \<and>
     list_all (\<lambda>n. list_all (\<lambda>k.
        (case nth_parent nodes k (node_id n) of
           None \<Rightarrow> True
         | Some a \<Rightarrow> list_ex (\<lambda>np. ancestor_id np = a \<and> descendant_id np = node_id n \<and>
                        depth np = int k) paths))
        [0..<Suc (length paths)]) nodes"

text \<open>The ids of the nodes exactly \<open>k\<close> parent steps below the node with id \<open>s\<close>.\<close>

definition nodes_below :: "node list \<Rightarrow> int \<Rightarrow> nat \<Rightarrow> int set" where
  "nodes_below nodes s k = {i. nth_parent nodes k i = Some s}"

section \<open>Closure maintenance: the triggers on \<open>nodes\<close>\<close>

datatype sql_error = Constraint_Check | Constraint_PrimaryKey | Constraint_ForeignKey

record database =
  nodes_table :: "node list"
  node_paths_table :: "node_path list"

text \<open>The CHECK constraint of \<open>nodes\<close>: a code or a pattern, not both, except on a root.\<close>

definition nodes_check :: "node \<Rightarrow> bool" where
  "nodes_check n \<longleftrightarrow> (code n \<noteq> None \<and> pattern n = None) \<or>
     (code n = None \<and> pattern n \<noteq> None) \<or> parent_id n = None"

text \<open>Inserting rows into \<open>node_paths\<close> under its primary key (ancestor_id, descendant_id).\<close>

fun insert_paths :: "node_path list \<Rightarrow> node_path list \<Rightarrow> sql_error + node_path list" where
  "insert_paths paths [] = Inr paths"
| "insert_paths paths (r # rs) =
     (if list_ex (\<lambda>np. ancestor_id np = ancestor_id r \<and> descendant_id np = descendant_id r) paths
      then Inl Constraint_PrimaryKey
      else insert_paths (paths @ [r]) rs)"

text \<open>Trigger \<open>trg_node_insert\<close>, \<open>AFTER INSERT ON nodes ... WHEN NEW.parent_id IS NOT NULL\<close>:
  the reflexive row, then one row for every closure row that ends at the parent.\<close>

definition trg_node_insert :: "node \<Rightarrow> node_path list \<Rightarrow> sql_error + node_path list" where
  "trg_node_insert new paths =
     (case parent_id new of
        None \<Rightarrow> Inr paths
      | Some p \<Rightarrow>
          (case insert_paths paths
                  [\<lparr>ancestor_id = node_id new, descendant_id = node_id new, depth = 0\<rparr>] of
             Inl e \<Rightarrow> Inl e
           | Inr paths1 \<Rightarrow>
               insert_paths paths1
                 [\<lparr>ancestor_id = ancestor_id np, descendant_id = node_id new, depth = depth np + 1\<rparr>.
                    np \<leftarrow> paths1, descendant_id np = p]))"

text \<open>Trigger \<open>trg_node_delete\<close>, \<open>BEFORE DELETE ON nodes\<close>.\<close>

definition trg_node_delete :: "int \<Rightarrow> node_path list \<Rightarrow> node_path list" where
  "trg_node_delete old_id paths =
     [np \<leftarrow> paths. \<not> (ancestor_id np = old_id \<or> descendant_id np = old_id)]"

text \<open>\<open>INSERT INTO nodes\<close>: the constraints of the table, then the trigger; all or nothing.\<close>

definition insert_node :: "database \<Rightarrow> node \<Rightarrow> sql_error + database" where
  "insert_node db new =
     (if \<not> nodes_check new then Inl Constraint_Check
      else if node_id new \<in> set (map node_id (nodes_table db)) then Inl Constraint_PrimaryKey
      else if \<not> (case parent_id new of None \<Rightarrow> True
                  | Some p \<Rightarrow> p \<in> set (map node_id (nodes_table db @ [new])))
        then Inl Constraint_ForeignKey
      else (case trg_node_insert new (node_paths_table db) of
              Inl e \<Rightarrow> Inl e
            | Inr paths \<Rightarrow> Inr \<lparr>nodes_table = nodes_table db @ [new], node_paths_table = paths\<rparr>))"

text \<open>\<open>DELETE FROM nodes WHERE id = i\<close>: the trigger, the row, then \<open>ON DELETE CASCADE\<close> for the
  children as the schema declares it, each of them deleted the same way. The work list holds
  the ids still to delete.\<close>

function delete_nodes :: "int list \<Rightarrow> database \<Rightarrow> database" where
  "delete_nodes [] db = db"
| "delete_nodes (i # todo) db =
     (if i \<in> set (map node_id (nodes_table db))
      then delete_nodes
             ([node_id n. n \<leftarrow> nodes_table db, parent_id n = Some i, node_id n \<noteq> i] @ todo)
             \<lparr>nodes_table = [n \<leftarrow> nodes_table db. node_id n \<noteq> i],
              node_paths_table = trg_node_delete i (node_paths_table db)\<rparr>
      else delete_nodes todo db)"
  by pat_completeness auto
termination
proof (relation "measures [\<lambda>(todo, db). length (nodes_table db), \<lambda>(todo, db). length todo]")
  show "wf (measures [\<lambda>(todo, db). length (nodes_table db), \<lambda>(todo, db :: database). length todo])"
    by simp
next
  fix i :: int and todo :: "int list" and db :: database
  assume "i \<in> set (map node_id (nodes_table db))"
  then obtain n where "n \<in> set (nodes_table db)" "node_id n = i"
    by auto
  then have "length [n \<leftarrow> nodes_table db. node_id n \<noteq> i] < length (nodes_table db)"
    by (intro length_filter_less[of n]) auto
  then show "(([node_id n. n \<leftarrow> nodes_table db, parent_id n = Some i, node_id n \<noteq> i] @ todo,
       \<lparr>nodes_table = [n \<leftarrow> nodes_table db. node_id n \<noteq> i],
        node_paths_table = trg_node_delete i (node_paths_table db)\<rparr>), i # todo, db)
     \<in> measures [\<lambda>(todo, db). length (nodes_table db), \<lambda>(todo, db). length todo]"
    by simp
next
  fix i :: int and todo :: "int list" and db :: database
  show "((todo, db), i # todo, db)
     \<in> measures [\<lambda>(todo, db). length (nodes_table db), \<lambda>(todo, db). length todo]"
    by simp
qed

section \<open>The forward and backward checks as the specification words them\<close>

text \<open>The selections below and above the target level, as node ids by ascending level.\<close>

definition spec_before :: "node list \<Rightarrow> current_selection list \<Rightarrow> int \<Rightarrow> int list" where
  "spec_before nodes current_selections target_level =
     map fst (sort_key snd [s \<leftarrow> selection_ids nodes current_selections. snd s < target_level])"

definition spec_after :: "node list \<Rightarrow> current_selection list \<Rightarrow> int \<Rightarrow> int list" where
  "spec_after nodes current_selections target_level =
     map fst (sort_key snd [s \<leftarrow> selection_ids nodes current_selections. target_level < snd s])"

text \<open>A chain: every consecutive pair of the list is a row of the closure table.\<close>

fun spec_chain :: "node_path list \<Rightarrow> int list \<Rightarrow> bool" where
  "spec_chain paths (a # b # rest) = (is_reachable paths a b \<and> spec_chain paths (b # rest))"
| "spec_chain paths rest = True"

definition spec_forward_pass :: "node_path list \<Rightarrow> int list \<Rightarrow> int \<Rightarrow> bool" where
  "spec_forward_pass paths sel_before c = spec_chain paths (sel_before @ [c])"

definition spec_backward_pass :: "node_path list \<Rightarrow> int list \<Rightarrow> int \<Rightarrow> bool" where
  "spec_backward_pass paths sel_after c = spec_chain paths (c # sel_after)"

section \<open>An example store\<close>

text \<open>
  Two product families; the code ENG7 occurs once in each of them, as the documentation of
  Query 5 describes. The closure table holds every parent walk of the seven nodes.
\<close>

definition example_node :: "int \<Rightarrow> int option \<Rightarrow> int \<Rightarrow> string \<Rightarrow> int \<Rightarrow> node" where
  "example_node i p l c pos = \<lparr>node_id = i, parent_id = p, level = l, code = Some c,
     name = ''Option'', label = c, label_en = None, position = pos, pattern = None,
     full_typecode = None, is_intermediate_code = False, group_name = None,
     pictures = ''[]'', links = ''[]''\<rparr>"

definition example_path :: "int \<Rightarrow> int \<Rightarrow> int \<Rightarrow> node_path" where
  "example_path a d k = \<lparr>ancestor_id = a, descendant_id = d, depth = k\<rparr>"

definition example_nodes :: "node list" where
  "example_nodes =
     [example_node 1 None 0 ''XPRO5'' 1,
      example_node 2 None 0 ''YPRO2'' 1,
      example_node 3 (Some 1) 1 ''ENG7'' 7,
      example_node 4 (Some 2) 1 ''ENG7'' 7,
      example_node 5 (Some 4) 2 ''TR4X'' 12,
      example_node 6 (Some 3) 2 ''TR5Y'' 12,
      example_node 7 (Some 5) 3 ''RED'' 17]"

definition example_paths :: "node_path list" where
  "example_paths =
     [example_path 1 1 0, example_path 2 2 0,
      example_path 3 3 0, example_path 1 3 1,
      example_path 4 4 0, example_path 2 4 1,
      example_path 5 5 0, example_path 4 5 1, example_path 2 5 2,
      example_path 6 6 0, example_path 3 6 1, example_path 1 6 2,
      example_path 7 7 0, example_path 5 7 1, example_path 4 7 2, example_path 2 7 3]"

section \<open>Facts about the SQL building blocks\<close>

lemma sql_eq_Some [simp]: "sql_eq a (Some y) \<longleftrightarrow> a = Some y"
  by (cases a) (auto simp: sql_eq_def)

lemma sql_eq_None [simp]: "\<not> sql_eq a None"
  by (cases a) (auto simp: sql_eq_def)

lemma limit1_eq_Some_iff: "limit1 xs = Some x \<longleftrightarrow> (\<exists>rest. xs = x # rest)"
  by (cases xs) (auto simp: limit1_def)

lemma limit1_map: "limit1 (map f xs) = map_option f (limit1 xs)"
  by (cases xs) (auto simp: limit1_def)

lemma concat_map_if_filter:
  "concat (map (\<lambda>x. if P x then [f x] else []) xs) = map f (filter P xs)"
  by (induction xs) auto

lemma sql_max_Max: "xs \<noteq> [] \<Longrightarrow> sql_max xs = Some (Max (set xs))"
proof (cases xs)
  case Nil
  assume "xs \<noteq> []"
  with Nil show ?thesis by simp
next
  case (Cons y ys)
  show ?thesis unfolding Cons by (simp only: sql_max.simps Max.set_eq_fold)
qed

lemma is_reachable_iff:
  "is_reachable paths a d \<longleftrightarrow>
     (\<exists>np \<in> set paths. ancestor_id np = a \<and> descendant_id np = d)"
  by (simp add: is_reachable_def list_ex_iff)

lemma filter_id_le1:
  "distinct (map node_id (nodes :: node list)) \<Longrightarrow>
   length (filter (\<lambda>p. node_id p = i) nodes) \<le> 1"
  by (induction nodes) (auto simp: filter_empty_conv image_iff)

lemma left_join_single:
  assumes "length (filter on rows) \<le> 1"
  shows "\<exists>r. left_join rows on = [r]"
  using assms by (cases "filter on rows") (auto simp: left_join_def)

lemma parent_join_single:
  fixes nodes :: "node list" and n :: node
  assumes "distinct (map node_id nodes)"
  shows "\<exists>r. left_join nodes (\<lambda>p. sql_eq (parent_id n) (Some (node_id p))) = [r]"
proof (cases "parent_id n")
  case None
  then show ?thesis by (simp add: left_join_def)
next
  case (Some i)
  have "(\<lambda>p::node. sql_eq (parent_id n) (Some (node_id p))) = (\<lambda>p. node_id p = i)"
    using Some by auto
  moreover have "\<exists>r. left_join nodes (\<lambda>p. node_id p = i) = [r]"
    by (rule left_join_single[OF filter_id_le1[OF assms]])
  ultimately show ?thesis by simp
qed

lemma filter_eq_distinct:
  "distinct xs \<Longrightarrow> filter (\<lambda>i. a = i) xs = (if a \<in> set xs then [a] else [])"
  by (induction xs) auto

lemma left_join_member:
  assumes "distinct xs"
  shows "left_join xs (\<lambda>i. a = i) = [if a \<in> set xs then Some a else None]"
  by (simp add: left_join_def filter_eq_distinct[OF assms])

lemma sort_key_Cons_min:
  assumes "sort_key f xs = y # ys"
  shows "y \<in> set xs \<and> (\<forall>x \<in> set xs. f y \<le> f x)"
proof -
  have "set (sort_key f xs) = set xs" by simp
  then have s: "set xs = insert y (set ys)" using assms by simp
  have "sorted (map f (sort_key f xs))" by (rule sorted_sort_key)
  then have "\<forall>x \<in> set ys. f y \<le> f x" using assms by simp
  then show ?thesis using s by auto
qed

lemma sorted_options:
  "sorted_wrt (\<lambda>a b. opt_position a < opt_position b \<or>
                  (opt_position a = opt_position b \<and> opt_code a \<le> opt_code b))
     (sort_key (\<lambda>r. (opt_position r, opt_code r)) rows)"
proof -
  have "sorted (map (\<lambda>r. (opt_position r, opt_code r))
          (sort_key (\<lambda>r. (opt_position r, opt_code r)) rows))"
    by (rule sorted_sort_key)
  then have "sorted_wrt (\<lambda>a b. (opt_position a, opt_code a) \<le> (opt_position b, opt_code b))
     (sort_key (\<lambda>r. (opt_position r, opt_code r)) rows)"
    by (simp add: sorted_map)
  then show ?thesis
    by (rule sorted_wrt_mono_rel[rotated]) (auto simp: less_eq_prod_def)
qed

section \<open>Facts about the example store\<close>

lemma example_nodes_distinct: "distinct (map node_id example_nodes)"
  by (simp add: example_nodes_def example_node_def)

lemma example_closure_complete: "closure_complete example_nodes example_paths"
  by code_simp

section \<open>Query 5 returns every node that bears the code\<close>

text \<open>
  Claim C9. Lookup by code returns all nodes of the store whose code equals the search
  string: with the ids of \<open>nodes\<close> distinct (the primary key), the ids of the returned rows
  are, with multiplicity, the ids of the nodes bearing the code, so a code that occurs in
  several branches is returned once for every occurrence.
\<close>

theorem find_node_by_code_complete:
  fixes nodes :: "node list"
  assumes "distinct (map node_id nodes)"
  shows "mset (map fr_id (find_node_by_code nodes c)) =
         mset [node_id n. n \<leftarrow> nodes, code n = Some c]"
proof -
  define joined where "joined = (\<lambda>n::node.
     concat (map (\<lambda>p. if code n = Some c then [found_of_node n p c] else [])
       (left_join nodes (\<lambda>p. sql_eq (parent_id n) (Some (node_id p))))))"
  have one: "map fr_id (joined n) = (if code n = Some c then [node_id n] else [])" for n :: node
  proof -
    obtain r where "left_join nodes (\<lambda>p. sql_eq (parent_id n) (Some (node_id p))) = [r]"
      using parent_join_single[OF assms] by blast
    then show ?thesis
      by (simp add: joined_def found_of_node_def)
  qed
  have "find_node_by_code nodes c =
        sort_key (\<lambda>r. (fr_level r, fr_id r)) (concat (map joined nodes))"
    by (simp add: find_node_by_code_def joined_def)
  then have "mset (map fr_id (find_node_by_code nodes c)) =
             mset (map fr_id (concat (map joined nodes)))"
    by simp
  also have "map fr_id (concat (map joined nodes)) =
             concat (map (\<lambda>n. map fr_id (joined n)) nodes)"
    by (simp add: map_concat comp_def)
  finally show ?thesis by (simp add: one)
qed

theorem find_node_by_code_complete_witness:
  "distinct (map node_id example_nodes) \<and>
   mset (map fr_id (find_node_by_code example_nodes ''ENG7'')) = {#3, 4#}"
proof -
  have h: "distinct (map node_id example_nodes)"
    by (rule example_nodes_distinct)
  show ?thesis
    using h find_node_by_code_complete[OF h, of "''ENG7''"]
    by (simp add: example_nodes_def example_node_def)
qed

section \<open>Query 2 returns the children of a single node\<close>

text \<open>
  Claim C10. The children lookup resolves its parent by code with \<open>LIMIT 1\<close>: when the code
  occurs on one or more nodes, the result is the list of the direct children with a code of
  the one node \<open>p\<close> that \<open>LIMIT 1\<close> picks among them, ordered by position and code, and not
  the children of the other nodes bearing the code.
\<close>

theorem get_children_of_one_node:
  fixes nodes :: "node list"
  assumes "limit1 [p \<leftarrow> nodes. code p = Some c] = Some p"
  shows "p \<in> set nodes \<and> code p = Some c \<and>
    get_children_of_node nodes c =
      sort_key (\<lambda>r. (ch_position r, ch_code r))
        [child_of_node n k.
           n \<leftarrow> nodes, parent_id n = Some (node_id p), k \<leftarrow> not_null (code n)]"
proof -
  from assms obtain rest where f: "[p \<leftarrow> nodes. code p = Some c] = p # rest"
    by (auto simp: limit1_eq_Some_iff)
  then have "p \<in> set [p \<leftarrow> nodes. code p = Some c]" by simp
  then have mem: "p \<in> set nodes \<and> code p = Some c" by simp
  have "[node_id p. p \<leftarrow> nodes, code p = Some c] = map node_id [p \<leftarrow> nodes. code p = Some c]"
    by (simp add: concat_map_if_filter)
  then have "limit1 [node_id p. p \<leftarrow> nodes, code p = Some c] = Some (node_id p)"
    using assms by (simp add: limit1_map)
  then show ?thesis using mem
    by (simp add: get_children_of_node_def)
qed

text \<open>In the example store ENG7 is the code of nodes 3 and 4; the lookup returns the child of
  node 3 alone, while the two nodes together have the children TR4X and TR5Y.\<close>

theorem get_children_of_one_node_witness:
  "limit1 [p \<leftarrow> example_nodes. code p = Some ''ENG7'']
     = Some (example_node 3 (Some 1) 1 ''ENG7'' 7) \<and>
   map ch_code (get_children_of_node example_nodes ''ENG7'') = [''TR5Y''] \<and>
   [code n. n \<leftarrow> example_nodes, q \<leftarrow> example_nodes, code q = Some ''ENG7'',
       parent_id n = Some (node_id q)] = [Some ''TR4X'', Some ''TR5Y'']"
proof -
  have h: "limit1 [p \<leftarrow> example_nodes. code p = Some ''ENG7'']
             = Some (example_node 3 (Some 1) 1 ''ENG7'' 7)"
    by (simp add: example_nodes_def example_node_def limit1_def)
  have "map ch_code (get_children_of_node example_nodes ''ENG7'') = [''TR5Y'']"
    using get_children_of_one_node[OF h]
    by (simp add: example_nodes_def example_node_def not_null_def child_of_node_def)
  moreover have "[code n. n \<leftarrow> example_nodes, q \<leftarrow> example_nodes, code q = Some ''ENG7'',
       parent_id n = Some (node_id q)] = [Some ''TR4X'', Some ''TR5Y'']"
    by (simp add: example_nodes_def example_node_def)
  ultimately show ?thesis using h by simp
qed

section \<open>The rows of the resolver\<close>

lemma map_cand_id_candidates:
  "map cand_id (candidates nodes t) = map node_id [n \<leftarrow> nodes. level n = t \<and> code n \<noteq> None]"
  by (induction nodes) (auto simp: candidates_def not_null_def candidate_of_node_def)

lemma distinct_candidates:
  "distinct (map node_id nodes) \<Longrightarrow> distinct (map cand_id (candidates nodes t))"
  by (simp add: map_cand_id_candidates distinct_map_filter)

lemma backward_compatible_filter:
  "backward_compatible paths sel cands t =
     map cand_id [c \<leftarrow> cands. \<not> list_ex (\<lambda>si. snd si < t \<and>
        \<not> list_ex (\<lambda>np. ancestor_id np = cand_id c \<and> descendant_id np = fst si) paths) sel]"
  by (simp add: backward_compatible_def concat_map_if_filter)

lemma distinct_backward_compatible:
  "distinct (map cand_id cands) \<Longrightarrow> distinct (backward_compatible paths sel cands t)"
  by (simp add: backward_compatible_filter distinct_map_filter)

lemma distinct_forward_compatible: "distinct (forward_compatible paths ls cands)"
  by (simp add: forward_compatible_def)

lemma forward_compatible_single:
  "i \<in> set (forward_compatible paths [ls] cands) \<longleftrightarrow>
     is_reachable paths (fst ls) i \<and> i \<in> set (map cand_id cands)"
  by (auto simp: forward_compatible_def is_reachable_iff)

lemma last_selection_cases:
  assumes "sel \<noteq> []"
  shows "\<exists>ls. last_selection sel = [ls] \<and> ls \<in> set sel \<and> (\<forall>s \<in> set sel. snd s \<le> snd ls)"
proof -
  have "length (sort_key (\<lambda>s. - snd s) sel) = length sel" by simp
  then obtain y ys where eq: "sort_key (\<lambda>s. - snd s) sel = y # ys"
    using assms by (cases "sort_key (\<lambda>s. - snd s) sel") auto
  from sort_key_Cons_min[OF eq] have "y \<in> set sel" "\<forall>s \<in> set sel. snd s \<le> snd y"
    by auto
  then show ?thesis using eq by (auto simp: last_selection_def)
qed

lemma available_options_rows:
  fixes nodes :: "node list"
  assumes "distinct (map node_id nodes)"
  shows "get_available_options nodes paths t cs =
     sort_key (\<lambda>r. (opt_position r, opt_code r))
       (map (\<lambda>c. option_of_candidate c
               (cand_id c \<in> set (forward_compatible paths
                   (last_selection (selection_ids nodes cs)) (candidates nodes t)) \<and>
                cand_id c \<in> set (backward_compatible paths
                   (selection_ids nodes cs) (candidates nodes t) t)))
          (candidates nodes t))"
proof -
  define fwd where "fwd = forward_compatible paths
                   (last_selection (selection_ids nodes cs)) (candidates nodes t)"
  define bwd where "bwd = backward_compatible paths
                   (selection_ids nodes cs) (candidates nodes t) t"
  have df: "distinct fwd"
    by (simp add: fwd_def distinct_forward_compatible)
  have db: "distinct bwd"
    unfolding bwd_def by (rule distinct_backward_compatible[OF distinct_candidates[OF assms]])
  have row: "concat (map (\<lambda>fc. concat (map (\<lambda>bc.
                   [option_of_candidate c (fc \<noteq> None \<and> bc \<noteq> None)])
                 (left_join bwd (\<lambda>i. cand_id c = i))))
               (left_join fwd (\<lambda>i. cand_id c = i)))
             = [option_of_candidate c (cand_id c \<in> set fwd \<and> cand_id c \<in> set bwd)]" for c
    by (simp add: left_join_member[OF df] left_join_member[OF db])
  have "concat (map (\<lambda>c. concat (map (\<lambda>fc. concat (map (\<lambda>bc.
                   [option_of_candidate c (fc \<noteq> None \<and> bc \<noteq> None)])
                 (left_join bwd (\<lambda>i. cand_id c = i))))
               (left_join fwd (\<lambda>i. cand_id c = i)))) (candidates nodes t))
        = map (\<lambda>c. option_of_candidate c (cand_id c \<in> set fwd \<and> cand_id c \<in> set bwd))
            (candidates nodes t)"
    unfolding row by (induction "candidates nodes t") auto
  then show ?thesis
    unfolding get_available_options_def Let_def fwd_def[symmetric] bwd_def[symmetric]
    by simp
qed

lemma no_previous_selections_rows:
  "options_no_previous_selections nodes t =
     sort_key (\<lambda>r. (opt_position r, opt_code r))
       (map (\<lambda>c. option_of_candidate c True) (candidates nodes t))"
  by (simp add: options_no_previous_selections_def candidates_def map_concat comp_def
        if_distrib[of "map _"] cong: if_cong)

lemma option_rows_from_candidates:
  "r \<in> set (get_available_options nodes paths t cs) \<Longrightarrow>
   \<exists>c \<in> set (candidates nodes t). r = option_of_candidate c (is_compatible r)"
  by (auto simp: get_available_options_def Let_def option_of_candidate_def)

section \<open>The resolver without selections\<close>

text \<open>
  Claim C3. With no previous selection the resolver returns every candidate of the target
  level (every node of that level with a code), in the order of the query, and every
  returned row has the compatibility flag set.
\<close>

theorem no_previous_selections_all_compatible:
  "options_no_previous_selections nodes t =
     sort_key (\<lambda>r. (opt_position r, opt_code r))
       (map (\<lambda>c. option_of_candidate c True) (candidates nodes t)) \<and>
   list_all is_compatible (options_no_previous_selections nodes t)"
proof -
  have "list_all is_compatible (map (\<lambda>c. option_of_candidate c True) (candidates nodes t))"
    by (simp add: list_all_iff option_of_candidate_def)
  then show ?thesis
    unfolding no_previous_selections_rows by (simp add: list_all_iff)
qed

theorem no_previous_selections_all_compatible_witness:
  "map (\<lambda>r. (opt_code r, is_compatible r)) (options_no_previous_selections example_nodes 2)
     = [(''TR4X'', True), (''TR5Y'', True)] \<and>
   map cand_code (candidates example_nodes 2) = [''TR4X'', ''TR5Y'']"
proof -
  have c: "candidates example_nodes 2 =
      [candidate_of_node (example_node 5 (Some 4) 2 ''TR4X'' 12) ''TR4X'',
       candidate_of_node (example_node 6 (Some 3) 2 ''TR5Y'' 12) ''TR5Y'']"
    by (simp add: candidates_def example_nodes_def example_node_def not_null_def)
  have "options_no_previous_selections example_nodes 2 =
     sort_key (\<lambda>r. (opt_position r, opt_code r))
       (map (\<lambda>c. option_of_candidate c True) (candidates example_nodes 2))"
    using no_previous_selections_all_compatible[of example_nodes 2] by blast
  then show ?thesis
    unfolding c
    by (simp add: candidate_of_node_def option_of_candidate_def example_node_def
        less_eq_prod_def)
qed

section \<open>The forward check\<close>

text \<open>
  Claim C1 says that a candidate passes the forward check exactly when the selections below
  the target level form one chain in the closure table that ends at the candidate. The query
  looks at the last selection only. In the example store the selections XPRO5 (level 0,
  node 1) and TR4X (level 2, node 5) are not connected (TR4X lies in the family YPRO2), yet
  the candidate RED (node 7) of level 3 passes the forward check.
\<close>

theorem forward_check_chain_counterexample:
  "spec_before example_nodes [(''XPRO5'', 0), (''TR4X'', 2)] 3 = [1, 5] \<and>
   7 \<in> set (forward_compatible example_paths
         (last_selection (selection_ids example_nodes [(''XPRO5'', 0), (''TR4X'', 2)]))
         (candidates example_nodes 3)) \<and>
   \<not> spec_forward_pass example_paths
         (spec_before example_nodes [(''XPRO5'', 0), (''TR4X'', 2)] 3) 7"
  by code_simp

text \<open>
  Claim C1, as amended. For every query whose selections all lie below the target level and
  of which at least one resolves to a node, \<open>last_selection\<close> is one resolved selection
  \<open>ls\<close> of the highest level, and a candidate \<open>c\<close> of the target level passes the forward
  check if and only if the closure table has a row from \<open>ls\<close> to \<open>c\<close>. Reachability between
  the other selections is not tested.
\<close>

theorem forward_check_tests_last_selection:
  assumes "\<forall>s \<in> set cs. snd s < t"
    and "selection_ids nodes cs \<noteq> []"
    and "c \<in> set (candidates nodes t)"
  shows "\<exists>ls. last_selection (selection_ids nodes cs) = [ls] \<and>
           ls \<in> set (selection_ids nodes cs) \<and>
           (\<forall>s \<in> set (selection_ids nodes cs). snd s \<le> snd ls) \<and>
           (cand_id c \<in> set (forward_compatible paths
                (last_selection (selection_ids nodes cs)) (candidates nodes t))
            \<longleftrightarrow> is_reachable paths (fst ls) (cand_id c))"
proof -
  obtain ls where ls: "last_selection (selection_ids nodes cs) = [ls]"
      "ls \<in> set (selection_ids nodes cs)"
      "\<forall>s \<in> set (selection_ids nodes cs). snd s \<le> snd ls"
    using last_selection_cases[OF assms(2)] by blast
  have "cand_id c \<in> set (map cand_id (candidates nodes t))"
    using assms(3) by simp
  then have "cand_id c \<in> set (forward_compatible paths [ls] (candidates nodes t))
            \<longleftrightarrow> is_reachable paths (fst ls) (cand_id c)"
    by (simp only: forward_compatible_single simp_thms)
  then show ?thesis using ls by simp
qed

theorem forward_check_tests_last_selection_witness:
  "(\<exists>ls. last_selection (selection_ids example_nodes [(''ENG7'', 1), (''TR4X'', 2)]) = [ls] \<and>
         fst ls = 5) \<and>
   7 \<in> set (forward_compatible example_paths
         (last_selection (selection_ids example_nodes [(''ENG7'', 1), (''TR4X'', 2)]))
         (candidates example_nodes 3)) \<and>
   is_reachable example_paths 5 7"
proof -
  let ?cs = "[(''ENG7'', 1), (''TR4X'', 2)] :: current_selection list"
  let ?c = "candidate_of_node (example_node 7 (Some 5) 3 ''RED'' 17) ''RED''"
  have sel: "selection_ids example_nodes ?cs = [(3, 1), (4, 1), (5, 2)]"
    by (simp add: selection_ids_def example_nodes_def example_node_def)
  have cands: "candidates example_nodes 3 = [?c]"
    by (simp add: candidates_def example_nodes_def example_node_def not_null_def)
  have h1: "\<forall>s \<in> set ?cs. snd s < 3" by simp
  have h2: "selection_ids example_nodes ?cs \<noteq> []" by (simp add: sel)
  have h3: "?c \<in> set (candidates example_nodes 3)" by (simp add: cands)
  have r: "is_reachable example_paths 5 7"
    by (simp add: is_reachable_def example_paths_def example_path_def)
  have l: "last_selection (selection_ids example_nodes ?cs) = [(5, 2)]"
    by (simp add: sel last_selection_def)
  from forward_check_tests_last_selection[OF h1 h2 h3, of example_paths]
  show ?thesis using r l by (simp add: candidate_of_node_def example_node_def)
qed

section \<open>The backward check\<close>

text \<open>
  Claim C2 says that a candidate passes the backward check exactly when it reaches the first
  selection above the target level and these selections form a chain. The query tests only
  the selections of a level below the target (\<open>si.level < :target_level\<close>), as descendants
  of the candidate. With the one selection RED (level 3, node 7) and target level 2, both
  candidates TR4X (node 5) and TR5Y (node 6) pass, although the closure table has no row
  from node 6 to node 7: the selections above the target are never looked at.
\<close>

theorem backward_check_ignores_later_selections:
  "spec_after example_nodes [(''RED'', 3)] 2 = [7] \<and>
   backward_compatible example_paths (selection_ids example_nodes [(''RED'', 3)])
      (candidates example_nodes 2) 2 = [5, 6] \<and>
   \<not> spec_backward_pass example_paths (spec_after example_nodes [(''RED'', 3)] 2) 6 \<and>
   spec_backward_pass example_paths (spec_after example_nodes [(''RED'', 3)] 2) 5"
  by code_simp

text \<open>
  The same test rejects every candidate as soon as a selection below the target resolves:
  the scenario that the header of Query 4 documents (a family and one option below it
  selected in order) yields no compatible option, here for TR5Y below ENG7 below XPRO5.
\<close>

lemma backward_check_rejects_sequential_selection:
  "map (\<lambda>r. (opt_code r, is_compatible r))
     (get_available_options example_nodes example_paths 2 [(''XPRO5'', 0), (''ENG7'', 1)])
   = [(''TR4X'', False), (''TR5Y'', False)]"
  by code_simp

section \<open>The compatibility flag\<close>

text \<open>
  Claim C4. With the ids of \<open>nodes\<close> distinct, the resolver returns one row per candidate of
  the target level, and the compatibility flag of the row of candidate \<open>c\<close> is the
  conjunction of \<open>c\<close> being in \<open>forward_compatible\<close> and \<open>c\<close> being in \<open>backward_compatible\<close>.
\<close>

theorem is_compatible_conjunction:
  fixes nodes :: "node list"
  assumes "distinct (map node_id nodes)"
  shows "get_available_options nodes paths t cs =
     sort_key (\<lambda>r. (opt_position r, opt_code r))
       (map (\<lambda>c. option_of_candidate c
               (cand_id c \<in> set (forward_compatible paths
                   (last_selection (selection_ids nodes cs)) (candidates nodes t)) \<and>
                cand_id c \<in> set (backward_compatible paths
                   (selection_ids nodes cs) (candidates nodes t) t)))
          (candidates nodes t))"
  by (rule available_options_rows[OF assms])

theorem is_compatible_conjunction_witness:
  "distinct (map node_id example_nodes) \<and>
   map cand_id (candidates example_nodes 1) = [3, 4] \<and>
   forward_compatible example_paths
      (last_selection (selection_ids example_nodes [(''ENG7'', 1)])) (candidates example_nodes 1)
     = [3] \<and>
   backward_compatible example_paths
      (selection_ids example_nodes [(''ENG7'', 1)]) (candidates example_nodes 1) 1 = [3, 4] \<and>
   map is_compatible (get_available_options example_nodes example_paths 1 [(''ENG7'', 1)])
     = [True, False]"
proof -
  have d: "distinct (map node_id example_nodes)"
    by (rule example_nodes_distinct)
  have c: "map cand_id (candidates example_nodes 1) = [3, 4]"
    by code_simp
  have f: "forward_compatible example_paths
      (last_selection (selection_ids example_nodes [(''ENG7'', 1)])) (candidates example_nodes 1)
     = [3]"
    by code_simp
  have b: "backward_compatible example_paths
      (selection_ids example_nodes [(''ENG7'', 1)]) (candidates example_nodes 1) 1 = [3, 4]"
    by code_simp
  have cs: "candidates example_nodes 1 =
      [candidate_of_node (example_node 3 (Some 1) 1 ''ENG7'' 7) ''ENG7'',
       candidate_of_node (example_node 4 (Some 2) 1 ''ENG7'' 7) ''ENG7'']"
    by (simp add: candidates_def example_nodes_def example_node_def not_null_def)
  have "map is_compatible (get_available_options example_nodes example_paths 1 [(''ENG7'', 1)])
     = [True, False]"
    unfolding is_compatible_conjunction[OF d] f b
    unfolding cs
    by (simp add: candidate_of_node_def option_of_candidate_def example_node_def)
  then show ?thesis using d c f b by simp
qed

section \<open>Selections that claim the same level\<close>

text \<open>
  Claim C5 says that two selections claiming the same level make the resolver fail with
  InvalidSelectionError. The query has no error result: called with XPRO5 and YPRO2, both
  of level 0, it returns the rows of level 0 and flags XPRO5, the first of the two, only.
\<close>

theorem duplicate_level_counterexample:
  "map (\<lambda>r. (opt_code r, is_compatible r))
     (get_available_options example_nodes example_paths 0 [(''XPRO5'', 0), (''YPRO2'', 0)])
   = [(''XPRO5'', True), (''YPRO2'', False)]"
  by code_simp

text \<open>
  Claim C5, as amended. Selections claiming the same level are not rejected: with the ids of
  \<open>nodes\<close> distinct, a call with two selections of one level returns a row for every
  candidate of the target level, the rows of the query without selections up to the
  compatibility flag.
\<close>

theorem duplicate_levels_return_all_candidates:
  fixes nodes :: "node list"
  assumes "distinct (map node_id nodes)" and "\<not> distinct (map snd cs)"
  shows "mset (map (\<lambda>r. r\<lparr>is_compatible := True\<rparr>) (get_available_options nodes paths t cs)) =
         mset (options_no_previous_selections nodes t)"
proof -
  have "(\<lambda>r. r\<lparr>is_compatible := True\<rparr>) (option_of_candidate c b) = option_of_candidate c True"
    for c b
    by (simp add: option_of_candidate_def)
  then show ?thesis
    unfolding available_options_rows[OF assms(1)] no_previous_selections_rows
    by (simp add: image_mset.compositionality comp_def)
qed

theorem duplicate_levels_return_all_candidates_witness:
  "distinct (map node_id example_nodes) \<and>
   \<not> distinct (map snd [(''XPRO5'', 0::int), (''YPRO2'', 0)]) \<and>
   map opt_code (options_no_previous_selections example_nodes 0) = [''XPRO5'', ''YPRO2''] \<and>
   mset (map (\<lambda>r. r\<lparr>is_compatible := True\<rparr>)
           (get_available_options example_nodes example_paths 0 [(''XPRO5'', 0), (''YPRO2'', 0)])) =
   mset (options_no_previous_selections example_nodes 0)"
proof -
  have d: "distinct (map node_id example_nodes)"
    by (rule example_nodes_distinct)
  have n: "\<not> distinct (map snd [(''XPRO5'', 0::int), (''YPRO2'', 0)])" by simp
  have e: "map opt_code (options_no_previous_selections example_nodes 0) = [''XPRO5'', ''YPRO2'']"
    by code_simp
  show ?thesis
    using d n e duplicate_levels_return_all_candidates[OF d n, of example_paths 0] by simp
qed

section \<open>The order and the columns of the result\<close>

text \<open>
  Claim C8 says that every returned entry carries fullTypecode, isIntermediate and
  parentCode. The rows of the query have the columns code, label, position, group_name,
  level and is_compatible: changing the parent, the full typecode and the intermediate flag
  of the candidate ENG7 changes nothing in the result, with or without selections.
\<close>

theorem options_omit_typecode_counterexample:
  "options_no_previous_selections
     [example_node 1 None 0 ''XPRO5'' 1,
      (example_node 3 (Some 1) 1 ''ENG7'' 7)\<lparr>parent_id := None,
         full_typecode := Some ''XPRO5 ENG7'', is_intermediate_code := True\<rparr>] 1
   = options_no_previous_selections
     [example_node 1 None 0 ''XPRO5'' 1, example_node 3 (Some 1) 1 ''ENG7'' 7] 1 \<and>
   get_available_options
     [example_node 1 None 0 ''XPRO5'' 1,
      (example_node 3 (Some 1) 1 ''ENG7'' 7)\<lparr>parent_id := None,
         full_typecode := Some ''XPRO5 ENG7'', is_intermediate_code := True\<rparr>]
     example_paths 1 [(''XPRO5'', 0)]
   = get_available_options
     [example_node 1 None 0 ''XPRO5'' 1, example_node 3 (Some 1) 1 ''ENG7'' 7]
     example_paths 1 [(''XPRO5'', 0)]"
  by code_simp

text \<open>
  Claim C8, as amended. The result of the resolver, with and without selections, is sorted
  by position ascending, with the code ascending as tie-breaker, and every returned row
  consists of the columns code, label, position, group_name and level of a candidate and
  the compatibility flag.
\<close>

theorem options_ordered_by_position_code:
  "sorted_wrt (\<lambda>a b. opt_position a < opt_position b \<or>
                  (opt_position a = opt_position b \<and> opt_code a \<le> opt_code b))
     (get_available_options nodes paths t cs) \<and>
   sorted_wrt (\<lambda>a b. opt_position a < opt_position b \<or>
                  (opt_position a = opt_position b \<and> opt_code a \<le> opt_code b))
     (options_no_previous_selections nodes t) \<and>
   (\<forall>r \<in> set (get_available_options nodes paths t cs).
      \<exists>c \<in> set (candidates nodes t). r = option_of_candidate c (is_compatible r))"
  using option_rows_from_candidates[of _ nodes paths t cs]
  by (auto simp: get_available_options_def options_no_previous_selections_def Let_def
      sorted_options)

theorem options_ordered_by_position_code_witness:
  "map (\<lambda>r. (opt_position r, opt_code r))
      (get_available_options example_nodes example_paths 2 [(''ENG7'', 1)])
     = [(12, ''TR4X''), (12, ''TR5Y'')] \<and>
   sorted_wrt (\<lambda>a b. opt_position a < opt_position b \<or>
                  (opt_position a = opt_position b \<and> opt_code a \<le> opt_code b))
     (get_available_options example_nodes example_paths 2 [(''ENG7'', 1)])"
proof -
  have "map (\<lambda>r. (opt_position r, opt_code r))
      (get_available_options example_nodes example_paths 2 [(''ENG7'', 1)])
     = [(12, ''TR4X''), (12, ''TR5Y'')]"
    by code_simp
  then show ?thesis
    using options_ordered_by_position_code[of example_nodes example_paths 2 "[(''ENG7'', 1)]"]
    by blast
qed

section \<open>Closure maintenance by the triggers\<close>

text \<open>Inserting a node without a parent leaves the closure table as it is.\<close>

lemma trg_node_insert_root: "parent_id new = None \<Longrightarrow> trg_node_insert new paths = Inr paths"
  by (simp add: trg_node_insert_def)

text \<open>Deleting a node leaves no closure row that names it.\<close>

lemma trg_node_delete_clears:
  "np \<in> set (trg_node_delete i paths) \<Longrightarrow> ancestor_id np \<noteq> i \<and> descendant_id np \<noteq> i"
  by (simp add: trg_node_delete_def)

text \<open>
  Claim C6 says that in every state reached by insertions and deletions the closure table
  holds exactly the parent walks of every node, the reflexive row included. The insert
  trigger fires only \<open>WHEN NEW.parent_id IS NOT NULL\<close>: inserting a family root writes no
  row at all, so a child inserted below it gets its reflexive row and nothing else. After
  inserting the root 1 and its child 2 into the empty store the closure table is the single
  row (2, 2, 0) and is not complete; the complete table has the rows (1, 1, 0), (2, 2, 0)
  and (1, 2, 1).
\<close>

theorem insert_trigger_skips_root:
  "insert_node \<lparr>nodes_table = [], node_paths_table = []\<rparr> (example_node 1 None 0 ''XPRO5'' 1)
     = Inr \<lparr>nodes_table = [example_node 1 None 0 ''XPRO5'' 1], node_paths_table = []\<rparr> \<and>
   insert_node \<lparr>nodes_table = [example_node 1 None 0 ''XPRO5'' 1], node_paths_table = []\<rparr>
       (example_node 2 (Some 1) 1 ''ENG7'' 7)
     = Inr \<lparr>nodes_table = [example_node 1 None 0 ''XPRO5'' 1, example_node 2 (Some 1) 1 ''ENG7'' 7],
            node_paths_table = [example_path 2 2 0]\<rparr> \<and>
   \<not> closure_complete [example_node 1 None 0 ''XPRO5'' 1, example_node 2 (Some 1) 1 ''ENG7'' 7]
         [example_path 2 2 0] \<and>
   closure_complete [example_node 1 None 0 ''XPRO5'' 1, example_node 2 (Some 1) 1 ''ENG7'' 7]
         [example_path 1 1 0, example_path 2 2 0, example_path 1 2 1]"
  by code_simp

section \<open>Parent walks\<close>

lemma nth_parent_in_ids:
  "nth_parent nodes k i = Some a \<Longrightarrow> i \<in> set (map node_id nodes)"
proof (cases k)
  case 0
  assume "nth_parent nodes k i = Some a"
  with 0 show ?thesis by (simp split: if_splits)
next
  case (Suc j)
  assume "nth_parent nodes k i = Some a"
  with Suc obtain n where "find (\<lambda>n. node_id n = i) nodes = Some n"
    by (auto split: option.splits)
  then show ?thesis by (auto simp: find_Some_iff)
qed

lemma find_by_id:
  fixes nodes :: "node list"
  assumes "distinct (map node_id nodes)" and "n \<in> set nodes"
  shows "find (\<lambda>m. node_id m = node_id n) nodes = Some n"
  using assms
proof (induction nodes)
  case Nil
  then show ?case by simp
next
  case (Cons m ms)
  then show ?case by (auto simp: image_iff)
qed

lemma nth_parent_Suc_iff:
  fixes nodes :: "node list"
  assumes "distinct (map node_id nodes)"
  shows "nth_parent nodes (Suc k) i = Some a \<longleftrightarrow>
     (\<exists>n p. n \<in> set nodes \<and> node_id n = i \<and> parent_id n = Some p \<and> nth_parent nodes k p = Some a)"
proof
  assume "nth_parent nodes (Suc k) i = Some a"
  then obtain n p where "find (\<lambda>n. node_id n = i) nodes = Some n" "parent_id n = Some p"
      "nth_parent nodes k p = Some a"
    by (auto split: option.splits)
  moreover from this have "n \<in> set nodes \<and> node_id n = i"
    by (auto simp: find_Some_iff)
  ultimately show "\<exists>n p. n \<in> set nodes \<and> node_id n = i \<and> parent_id n = Some p \<and> nth_parent nodes k p = Some a"
    by blast
next
  assume "\<exists>n p. n \<in> set nodes \<and> node_id n = i \<and> parent_id n = Some p \<and> nth_parent nodes k p = Some a"
  then obtain n p where n: "n \<in> set nodes" "node_id n = i" "parent_id n = Some p"
      "nth_parent nodes k p = Some a"
    by blast
  have "find (\<lambda>m. node_id m = i) nodes = Some n"
    using find_by_id[OF assms n(1)] n(2) by simp
  then show "nth_parent nodes (Suc k) i = Some a"
    using n by simp
qed

lemma nth_parent_prefix:
  "nth_parent nodes (Suc k) i = Some a \<Longrightarrow> \<exists>b. nth_parent nodes k i = Some b"
proof (induction k arbitrary: i)
  case 0
  then have "i \<in> set (map node_id nodes)" by (rule nth_parent_in_ids)
  then show ?case by simp
next
  case (Suc k)
  from Suc.prems obtain n p where n: "find (\<lambda>n. node_id n = i) nodes = Some n"
      "parent_id n = Some p" "nth_parent nodes (Suc k) p = Some a"
    by (auto split: option.splits)
  from Suc.IH[OF n(3)] obtain b where "nth_parent nodes k p = Some b" by blast
  then show ?case using n by simp
qed

lemma nth_parent_prefix_le:
  "nth_parent nodes k i = Some a \<Longrightarrow> j \<le> k \<Longrightarrow> \<exists>b. nth_parent nodes j i = Some b"
proof (induction "k - j" arbitrary: j)
  case 0
  then show ?case by auto
next
  case (Suc d)
  then have "Suc j \<le> k" "d = k - Suc j" by auto
  from Suc.hyps(1)[OF this(2) Suc.prems(1) this(1)]
  obtain b where "nth_parent nodes (Suc j) i = Some b" by blast
  then show ?case by (rule nth_parent_prefix)
qed

lemma nodes_below_Suc_empty: "nodes_below nodes s k = {} \<Longrightarrow> nodes_below nodes s (Suc k) = {}"
  by (auto simp: nodes_below_def split: option.splits)

lemma depth_calc_step_nodes_below:
  fixes nodes :: "node list"
  assumes d: "distinct (map node_id nodes)"
    and f: "fst ` set rows = nodes_below nodes s k"
    and s: "snd ` set rows \<subseteq> {int k}"
  shows "fst ` set (depth_calc_step nodes rows) = nodes_below nodes s (Suc k)"
    and "snd ` set (depth_calc_step nodes rows) \<subseteq> {int (Suc k)}"
proof -
  show "snd ` set (depth_calc_step nodes rows) \<subseteq> {int (Suc k)}"
    using s by (auto simp: depth_calc_step_def)
  show "fst ` set (depth_calc_step nodes rows) = nodes_below nodes s (Suc k)"
  proof (intro set_eqI iffI)
    fix i assume "i \<in> fst ` set (depth_calc_step nodes rows)"
    then obtain n r where n: "n \<in> set nodes" "r \<in> set rows" "parent_id n = Some (fst r)" "i = node_id n"
      by (auto simp: depth_calc_step_def)
    then have "fst r \<in> nodes_below nodes s k" using f by auto
    then have "nth_parent nodes k (fst r) = Some s" by (simp add: nodes_below_def)
    then have "nth_parent nodes (Suc k) i = Some s"
      using n nth_parent_Suc_iff[OF d] by blast
    then show "i \<in> nodes_below nodes s (Suc k)" by (simp add: nodes_below_def)
  next
    fix i assume "i \<in> nodes_below nodes s (Suc k)"
    then have "nth_parent nodes (Suc k) i = Some s" by (simp add: nodes_below_def)
    then obtain n p where n: "n \<in> set nodes" "node_id n = i" "parent_id n = Some p"
        "nth_parent nodes k p = Some s"
      using nth_parent_Suc_iff[OF d] by blast
    then have "p \<in> fst ` set rows" using f by (simp add: nodes_below_def)
    then obtain r where "r \<in> set rows" "fst r = p" by auto
    then have "(i, snd r + 1) \<in> set (depth_calc_step nodes rows)"
      using n by (auto simp: depth_calc_step_def)
    then show "i \<in> fst ` set (depth_calc_step nodes rows)" by force
  qed
qed

lemma depth_calc_levels:
  fixes nodes :: "node list"
  assumes d: "distinct (map node_id nodes)"
  shows "fst ` set rows = nodes_below nodes s k \<Longrightarrow> snd ` set rows \<subseteq> {int k} \<Longrightarrow>
     nodes_below nodes s (k + m) = {} \<Longrightarrow> (\<forall>j < m. nodes_below nodes s (k + j) \<noteq> {}) \<Longrightarrow> m \<le> fuel \<Longrightarrow>
     \<exists>out. depth_calc fuel nodes rows = Some out \<and> snd ` set out = int ` {k ..< k + m}"
proof (induction m arbitrary: k rows fuel)
  case 0
  then have "rows = []" by simp
  then show ?case by simp
next
  case (Suc m)
  from Suc.prems(4) have "nodes_below nodes s k \<noteq> {}" by force
  then have ne: "rows \<noteq> []" using Suc.prems(1) by auto
  then obtain r rs where rows: "rows = r # rs" by (cases rows) auto
  from Suc.prems(5) obtain f where fuel: "fuel = Suc f" "m \<le> f" by (cases fuel) auto
  have sk: "snd ` set rows = {int k}" using ne Suc.prems(2) by (cases rows) auto
  note st = depth_calc_step_nodes_below[OF d Suc.prems(1) Suc.prems(2)]
  have e: "nodes_below nodes s (Suc k + m) = {}" using Suc.prems(3) by simp
  have n: "\<forall>j < m. nodes_below nodes s (Suc k + j) \<noteq> {}"
  proof (intro allI impI)
    fix j assume "j < m"
    then have "Suc j < Suc m" by simp
    with Suc.prems(4) have "nodes_below nodes s (k + Suc j) \<noteq> {}" by blast
    then show "nodes_below nodes s (Suc k + j) \<noteq> {}" by simp
  qed
  from Suc.IH[OF st(1) st(2) e n fuel(2)]
  obtain out where out: "depth_calc f nodes (depth_calc_step nodes rows) = Some out"
      "snd ` set out = int ` {Suc k ..< Suc k + m}" by blast
  have "depth_calc fuel nodes rows = Some (rows @ out)"
    using out(1) by (simp add: rows fuel(1))
  moreover have "snd ` set (rows @ out) = int ` {k ..< k + Suc m}"
  proof -
    have "{k ..< k + Suc m} = insert k {Suc k ..< Suc k + m}" by auto
    then show ?thesis using sk out(2) by (simp add: image_Un)
  qed
  ultimately show ?case by blast
qed

section \<open>What a complete closure table says\<close>

lemma closure_complete_rows:
  assumes "closure_complete nodes paths" and "np \<in> set paths"
  shows "0 \<le> depth np"
    and "nth_parent nodes (nat (depth np)) (descendant_id np) = Some (ancestor_id np)"
  using assms by (auto simp: closure_complete_def list_all_iff)

lemma closure_complete_walks:
  assumes "closure_complete nodes paths" and "nth_parent nodes k i = Some a"
    and "k \<le> length paths"
  shows "\<exists>np \<in> set paths. ancestor_id np = a \<and> descendant_id np = i \<and> depth np = int k"
proof -
  from assms(2) have "i \<in> set (map node_id nodes)" by (rule nth_parent_in_ids)
  then obtain n where n: "n \<in> set nodes" "node_id n = i" by auto
  have "k \<in> set [0..<Suc (length paths)]" using assms(3) by auto
  with assms(1) n(1) have "case nth_parent nodes k (node_id n) of
           None \<Rightarrow> True
         | Some a \<Rightarrow> list_ex (\<lambda>np. ancestor_id np = a \<and> descendant_id np = node_id n \<and>
                        depth np = int k) paths"
    unfolding closure_complete_def list_all_iff by blast
  then show ?thesis using assms(2) n(2) by (simp add: list_ex_iff)
qed

lemma closure_complete_bound:
  assumes c: "closure_complete nodes paths" and w: "nth_parent nodes k i = Some a"
  shows "k < length paths"
proof (rule ccontr)
  assume "\<not> k < length paths"
  then have le: "length paths \<le> k" by simp
  have "int ` {0..length paths} \<subseteq> depth ` set paths"
  proof
    fix x assume "x \<in> int ` {0..length paths}"
    then obtain j where j: "x = int j" "j \<le> length paths" by auto
    then have "j \<le> k" using le by simp
    from nth_parent_prefix_le[OF w this] obtain b where "nth_parent nodes j i = Some b" by blast
    from closure_complete_walks[OF c this j(2)] show "x \<in> depth ` set paths"
      using j(1) by force
  qed
  then have "card (int ` {0..length paths}) \<le> card (depth ` set paths)"
    by (intro card_mono) auto
  moreover have "card (int ` {0..length paths}) = Suc (length paths)"
    by (simp add: card_image)
  moreover have "card (depth ` set paths) \<le> length paths"
    by (rule order_trans[OF card_image_le card_length]) simp
  ultimately show False by simp
qed

lemma closure_complete_iff:
  assumes c: "closure_complete nodes paths"
  shows "nth_parent nodes k i = Some a \<longleftrightarrow>
    (\<exists>np \<in> set paths. ancestor_id np = a \<and> descendant_id np = i \<and> depth np = int k)"
proof
  assume w: "nth_parent nodes k i = Some a"
  then have "k \<le> length paths" using closure_complete_bound[OF c w] by simp
  then show "\<exists>np \<in> set paths. ancestor_id np = a \<and> descendant_id np = i \<and> depth np = int k"
    by (rule closure_complete_walks[OF c w])
next
  assume "\<exists>np \<in> set paths. ancestor_id np = a \<and> descendant_id np = i \<and> depth np = int k"
  then obtain np where np: "np \<in> set paths" "ancestor_id np = a" "descendant_id np = i"
      "depth np = int k" by blast
  from closure_complete_rows(2)[OF c np(1)] show "nth_parent nodes k i = Some a"
    using np by simp
qed

section \<open>Query 3: the recursive CTE against the closure table\<close>

text \<open>
  Claim C7 says that for every node the recursive CTE and the closure table give the same
  maximum depth, the length of the longest path below the node. Both queries find the node
  by its code. In the example store ENG7 is the code of nodes 3 and 4: the CTE starts at
  both and returns 2, the depth below node 4; the closure query reads the rows of node 3,
  which \<open>LIMIT 1\<close> picks, and returns 1. No node lies two steps below node 3.
\<close>

theorem max_depth_shared_code_counterexample:
  "closure_complete example_nodes example_paths \<and>
   map node_id [n \<leftarrow> example_nodes. code n = Some ''ENG7''] = [3, 4] \<and>
   max_depth_from_node_cte 17 example_nodes ''ENG7'' = Some (Some 2) \<and>
   max_depth_from_node_closure example_nodes example_paths ''ENG7'' = Some 1 \<and>
   [i \<leftarrow> map node_id example_nodes. nth_parent example_nodes 2 i = Some 3] = []"
  by code_simp

text \<open>
  Claim C7, as amended. For a node \<open>s\<close> whose code no other node bears, in a store with
  distinct ids and a complete closure table, the recursive CTE ends within as many working
  tables as the closure table has rows, plus one, and the CTE and the closure query return
  the same integer \<open>K\<close>: some node lies \<open>K\<close> parent steps below \<open>s\<close>, and none lies deeper.
\<close>

theorem max_depth_cte_eq_closure:
  fixes nodes :: "node list"
  assumes d: "distinct (map node_id nodes)"
    and c: "closure_complete nodes paths"
    and u: "[n \<leftarrow> nodes. code n = Some start_code] = [s]"
    and fuel: "length paths < fuel"
  shows "\<exists>K. max_depth_from_node_cte fuel nodes start_code = Some (Some (int K)) \<and>
              max_depth_from_node_closure nodes paths start_code = Some (int K) \<and>
              (\<exists>i. nth_parent nodes K i = Some (node_id s)) \<and>
              (\<forall>k i. nth_parent nodes k i = Some (node_id s) \<longrightarrow> k \<le> K)"
proof -
  let ?s = "node_id s"
  let ?B = "nodes_below nodes ?s"
  have "s \<in> set [n \<leftarrow> nodes. code n = Some start_code]" using u by simp
  then have s_in: "s \<in> set nodes" by simp
  have B0: "?B 0 = {?s}" using s_in by (auto simp: nodes_below_def)
  have Bemp: "?B (length paths) = {}"
    using closure_complete_bound[OF c] by (fastforce simp: nodes_below_def)
  define m where "m = (LEAST m. ?B m = {})"
  have m_emp: "?B m = {}" unfolding m_def using Bemp by (rule LeastI)
  have m_le: "m \<le> length paths" unfolding m_def using Bemp by (rule Least_le)
  have m_min: "?B j \<noteq> {}" if "j < m" for j
    using that not_less_Least unfolding m_def by blast
  have m_pos: "0 < m" using m_emp B0 by (cases m) auto
  have up: "?B j = {}" if "m \<le> j" for j
    using that
  proof (induction j)
    case 0
    then show ?case using m_emp by simp
  next
    case (Suc j)
    show ?case
    proof (cases "m \<le> j")
      case True
      then show ?thesis using Suc.IH nodes_below_Suc_empty by blast
    next
      case False
      then have "m = Suc j" using Suc.prems by simp
      then show ?thesis using m_emp by simp
    qed
  qed
  define K where "K = m - 1"
  have Km: "m = Suc K" using m_pos by (simp add: K_def)
  \<comment> \<open>Option A\<close>
  have base: "[(node_id n, 0::int). n \<leftarrow> nodes, code n = Some start_code] = [(?s, 0)]"
    using u by (simp add: concat_map_if_filter)
  have "\<exists>out. depth_calc fuel nodes [(?s, 0)] = Some out \<and> snd ` set out = int ` {0 ..< 0 + m}"
  proof (rule depth_calc_levels[OF d])
    show "fst ` set [(?s, 0::int)] = ?B 0" using B0 by simp
    show "snd ` set [(?s, 0::int)] \<subseteq> {int 0}" by simp
    show "?B (0 + m) = {}" using m_emp by simp
    show "\<forall>j<m. ?B (0 + j) \<noteq> {}" using m_min by simp
    show "m \<le> fuel" using m_le fuel by simp
  qed
  then obtain out where out: "depth_calc fuel nodes [(?s, 0)] = Some out"
      "snd ` set out = int ` {0 ..< m}" by auto
  have out_ne: "map snd out \<noteq> []" using out(2) m_pos by auto
  have "Max (set (map snd out)) = int K"
  proof -
    have "set (map snd out) = int ` {0..K}" using out(2) Km by (simp add: atLeastLessThanSuc_atLeastAtMost)
    moreover have "Max (int ` {0..K}) = int K"
      by (intro Max_eqI) auto
    ultimately show ?thesis by simp
  qed
  then have A: "max_depth_from_node_cte fuel nodes start_code = Some (Some (int K))"
    using out(1) sql_max_Max[OF out_ne] by (simp add: max_depth_from_node_cte_def base)
  \<comment> \<open>Option B\<close>
  have start: "limit1 [node_id n. n \<leftarrow> nodes, code n = Some start_code] = Some ?s"
    using u by (simp add: concat_map_if_filter limit1_def)
  define ds where "ds = [depth np. np \<leftarrow> paths, ancestor_id np = ?s]"
  have ds_set: "set ds = int ` {0..K}"
  proof (intro set_eqI iffI)
    fix x assume "x \<in> set ds"
    then obtain np where np: "np \<in> set paths" "ancestor_id np = ?s" "x = depth np"
      by (auto simp: ds_def)
    have "nth_parent nodes (nat x) (descendant_id np) = Some ?s" "0 \<le> x"
      using closure_complete_rows[OF c np(1)] np by simp_all
    then have "?B (nat x) \<noteq> {}" by (auto simp: nodes_below_def)
    then have "nat x < m" using up by (meson not_le)
    then show "x \<in> int ` {0..K}" using \<open>0 \<le> x\<close> Km
      by (intro image_eqI[of _ _ "nat x"]) auto
  next
    fix x assume "x \<in> int ` {0..K}"
    then obtain k where k: "x = int k" "k < m" using Km by auto
    then obtain i where "nth_parent nodes k i = Some ?s"
      using m_min[OF k(2)] by (auto simp: nodes_below_def)
    then obtain np where "np \<in> set paths" "ancestor_id np = ?s" "depth np = int k"
      using closure_complete_iff[OF c] by blast
    then show "x \<in> set ds" using k(1) by (force simp: ds_def)
  qed
  then have ds_ne: "ds \<noteq> []" by auto
  have "Max (set ds) = int K"
    unfolding ds_set by (intro Max_eqI) auto
  then have "sql_max ds = Some (int K)" using sql_max_Max[OF ds_ne] by simp
  moreover have "max_depth_from_node_closure nodes paths start_code = sql_max ds"
    unfolding max_depth_from_node_closure_def start Let_def ds_def
    by (simp add: sql_eq_def)
  ultimately have B: "max_depth_from_node_closure nodes paths start_code = Some (int K)"
    by simp
  \<comment> \<open>the longest walk\<close>
  have "K < m" using Km by simp
  then have ex: "\<exists>i. nth_parent nodes K i = Some ?s"
    using m_min[of K] by (auto simp: nodes_below_def)
  have all: "\<forall>k i. nth_parent nodes k i = Some ?s \<longrightarrow> k \<le> K"
  proof (intro allI impI)
    fix k i assume "nth_parent nodes k i = Some ?s"
    then have "?B k \<noteq> {}" by (auto simp: nodes_below_def)
    then have "k < m" using up by (meson not_le)
    then show "k \<le> K" using Km by simp
  qed
  show ?thesis using A B ex all by blast
qed

theorem max_depth_cte_eq_closure_witness:
  "distinct (map node_id example_nodes) \<and> closure_complete example_nodes example_paths \<and>
   [n \<leftarrow> example_nodes. code n = Some ''XPRO5''] = [example_node 1 None 0 ''XPRO5'' 1] \<and>
   max_depth_from_node_cte 17 example_nodes ''XPRO5'' = Some (Some 2) \<and>
   max_depth_from_node_closure example_nodes example_paths ''XPRO5'' = Some 2"
proof -
  have d: "distinct (map node_id example_nodes)"
    by (simp add: example_nodes_def example_node_def)
  have c: "closure_complete example_nodes example_paths"
    by code_simp
  have u: "[n \<leftarrow> example_nodes. code n = Some ''XPRO5''] = [example_node 1 None 0 ''XPRO5'' 1]"
    by (simp add: example_nodes_def example_node_def)
  have f: "length example_paths < 17" by (simp add: example_paths_def)
  have b: "max_depth_from_node_closure example_nodes example_paths ''XPRO5'' = Some 2"
    by code_simp
  from max_depth_cte_eq_closure[OF d c u f] b
  have "max_depth_from_node_cte 17 example_nodes ''XPRO5'' = Some (Some 2)"
    by auto
  then show ?thesis using d c u b by simp
qed

end
